theory Spec2Isabelle
  imports
    Complex_Main
    "HOL-Library.Sublist"
    "HOL-Library.Char_ord"
    "HOL-Library.List_Lexorder"
    "HOL-Library.Product_Lexorder"
begin

section \<open>Text primitives of the host language\<close>

text \<open>
  A Python \<open>str\<close> is modelled as a \<^typ>\<open>string\<close>, each \<^typ>\<open>char\<close> read as the code point
  of that number (0 to 255); code points above 255 are outside the model. Python has no
  character type: a letter is a \<open>str\<close> of length one, and \<open>set(word)\<close> is the set of the
  one-character strings of \<open>word\<close>. Strings are compared by code point, character by
  character, which is the order the imported list and character orders give.
\<close>

definition newline :: char where
  "newline = CHR 0x0A"

text \<open>\<open>str.isspace\<close> on one code point below 256.\<close>

definition py_isspace :: "char \<Rightarrow> bool" where
  "py_isspace c =
     (let n = (of_char c :: nat)
      in (9 \<le> n \<and> n \<le> 13) \<or> (28 \<le> n \<and> n \<le> 32) \<or> n = 133 \<or> n = 160)"

text \<open>\<open>str.strip()\<close>: whitespace is dropped at both ends.\<close>

definition py_strip :: "string \<Rightarrow> string" where
  "py_strip s = rev (dropWhile py_isspace (rev (dropWhile py_isspace s)))"

text \<open>
  \<open>str.lower()\<close> on one code point below 256: the upper-case letters are \<open>A\<close> to \<open>Z\<close> and
  the Latin-1 capitals 192 to 222 without the multiplication sign 215; each is 32 below
  its lower-case letter.
\<close>

definition lower_char :: "char \<Rightarrow> char" where
  "lower_char c =
     (let n = (of_char c :: nat)
      in if (65 \<le> n \<and> n \<le> 90) \<or> (192 \<le> n \<and> n \<le> 222 \<and> n \<noteq> 215)
         then char_of (n + 32) else c)"

definition py_lower :: "string \<Rightarrow> string" where
  "py_lower s = map lower_char s"

text \<open>\<open>set(word)\<close>: the one-character strings of \<open>word\<close>.\<close>

definition py_set :: "string \<Rightarrow> string set" where
  "py_set w = (\<lambda>c. [c]) ` set w"

section \<open>Regular expressions\<close>

text \<open>
  The patterns of the module use anchors, the dot, character classes and the repetition
  \<open>{n,}\<close> (with \<open>*\<close> as \<open>{0,}\<close> and \<open>+\<close> as \<open>{1,}\<close>) only, so a pattern is a list of such
  items. \<open>re.match\<close> looks for a match that starts at the first character and may end
  anywhere. Without flags the dot matches every character but the newline, \<open>^\<close> holds at
  the start of the string, and \<open>$\<close> holds at the end of the string and just before a
  newline that ends it.
\<close>

datatype atom = AnyChar | OneOf string | Range char char

datatype item = Bol | Eol | Rep atom nat

fun atom_matches :: "atom \<Rightarrow> char \<Rightarrow> bool" where
  "atom_matches AnyChar c = (c \<noteq> newline)"
| "atom_matches (OneOf cs) c = (c \<in> set cs)"
| "atom_matches (Range lo hi) c = (lo \<le> c \<and> c \<le> hi)"

text \<open>
  \<open>re_match_at p pos s\<close>: the items \<open>p\<close> match a prefix of \<open>s\<close>, the rest of the subject
  from position \<open>pos\<close> on. A repetition takes one more character or, once it has its
  minimum, hands over to the items after it; some choice must succeed, as with
  backtracking.
\<close>

fun re_match_at :: "item list \<Rightarrow> nat \<Rightarrow> string \<Rightarrow> bool" where
  "re_match_at [] pos s = True"
| "re_match_at (Bol # p) pos s = (pos = 0 \<and> re_match_at p pos s)"
| "re_match_at (Eol # p) pos s = ((s = [] \<or> s = [newline]) \<and> re_match_at p pos s)"
| "re_match_at (Rep a n # p) pos [] = (n = 0 \<and> re_match_at p pos [])"
| "re_match_at (Rep a n # p) pos (c # cs) =
     ((atom_matches a c \<and> re_match_at (Rep a (n - 1) # p) (Suc pos) cs)
      \<or> (n = 0 \<and> re_match_at p pos (c # cs)))"

definition re_match :: "item list \<Rightarrow> string \<Rightarrow> bool" where
  "re_match p s = re_match_at p 0 s"

text \<open>\<open>_WORD_RE = ^[a-z]+$\<close> and the two \<open>EXCLUDE_PATTERNS\<close>, \<open>^.{15,}$\<close> and \<open>.*[qxz]{2,}.*\<close>.\<close>

definition WORD_RE :: "item list" where
  "WORD_RE = [Bol, Rep (Range CHR ''a'' CHR ''z'') 1, Eol]"

definition EXCLUDE_PATTERNS :: "item list list" where
  "EXCLUDE_PATTERNS =
     [[Bol, Rep AnyChar 15, Eol],
      [Rep AnyChar 0, Rep (OneOf ''qxz'') 2, Rep AnyChar 0]]"

section \<open>The word source\<close>

text \<open>
  \<open>_load_words\<close> over the lines of the word list, each as the file iterator gives it
  (with its line end): the line is stripped and lowered, and kept when \<open>_WORD_RE\<close>
  matches it.
\<close>

fun load_words :: "string list \<Rightarrow> string list" where
  "load_words [] = []"
| "load_words (line # f) =
     (let w = py_lower (py_strip line)
      in if re_match WORD_RE w then w # load_words f else load_words f)"

section \<open>The plural and obscurity heuristics\<close>

definition non_plural_endings :: "string list" where
  "non_plural_endings = [''ous'', ''ness'', ''less'', ''ious'', ''us'']"

text \<open>The loop over the endings of \<open>_is_likely_plural\<close>: the first ending found returns \<open>False\<close>.\<close>

fun plural_endings_loop :: "string list \<Rightarrow> string \<Rightarrow> bool" where
  "plural_endings_loop [] word = True"
| "plural_endings_loop (ending # endings) word =
     (if suffix ending word then False else plural_endings_loop endings word)"

definition is_likely_plural :: "string \<Rightarrow> bool" where
  "is_likely_plural word =
     (if \<not> suffix ''s'' word \<or> length word \<le> 4 then False
      else if suffix ''ss'' word then False
      else plural_endings_loop non_plural_endings word)"

text \<open>The two loops of \<open>_is_obscure_word\<close>: over the patterns, and over the distinct characters.\<close>

fun exclude_patterns_loop :: "item list list \<Rightarrow> string \<Rightarrow> bool" where
  "exclude_patterns_loop [] word = False"
| "exclude_patterns_loop (pattern # patterns) word =
     (if re_match pattern word then True else exclude_patterns_loop patterns word)"

text \<open>
  \<open>word.count(char) >= len(word) * 0.6\<close> compares an integer with a double. For a word of
  fewer than \<open>2^50\<close> characters the double product is the exact product \<open>3 * len / 5\<close> when
  that is an integer, and otherwise is on the same side of every integer as the exact
  product (which is at least a fifth away from each), so the comparison is the one of
  the exact numbers.
\<close>

fun repeated_char_loop :: "char list \<Rightarrow> string \<Rightarrow> bool" where
  "repeated_char_loop [] word = False"
| "repeated_char_loop (char # chars) word =
     (if real (length word) * 0.6 \<le> real (count_list word char) then True
      else repeated_char_loop chars word)"

definition is_obscure_word :: "string \<Rightarrow> bool" where
  "is_obscure_word word =
     (if exclude_patterns_loop EXCLUDE_PATTERNS word then True
      else if 6 \<le> length word then repeated_char_loop (remdups word) word
      else False)"

section \<open>The validator and the scorer\<close>

text \<open>
  \<open>center not in word\<close> is Python's substring test on strings, and
  \<open>set(word).issubset(letters_set)\<close> asks each one-character string of the word to be a
  member of the letter set.
\<close>

definition is_valid_word :: "string \<Rightarrow> string set \<Rightarrow> string \<Rightarrow> int \<Rightarrow> bool \<Rightarrow> bool \<Rightarrow> bool" where
  "is_valid_word word letters_set center min_len filter_plurals filter_obscure =
     (if int (length word) < min_len then False
      else if \<not> sublist center word then False
      else if \<not> py_set word \<subseteq> letters_set then False
      else if filter_plurals \<and> is_likely_plural word then False
      else if filter_obscure \<and> is_obscure_word word then False
      else True)"

text \<open>
  \<open>_is_pangram\<close>: \<open>set(word).issuperset(letters_set)\<close>. (The function is named
  \<open>is_pangram_word\<close> here, since \<open>is_pangram\<close> is a field of the result record.)
\<close>

definition is_pangram_word :: "string \<Rightarrow> string set \<Rightarrow> bool" where
  "is_pangram_word word letters_set = (letters_set \<subseteq> py_set word)"

definition score_word :: "string \<Rightarrow> string set \<Rightarrow> int \<Rightarrow> int \<times> bool" where
  "score_word word letters_set pangram_bonus =
     (let is_pg = is_pangram_word word letters_set;
          base = (if length word = 4 then 1 else int (length word))
      in (base + (if is_pg then pangram_bonus else 0), is_pg))"

section \<open>Frequency scores and the frequency oracle\<close>

text \<open>
  Frequency scores and thresholds are doubles. The solver compares them with \<open><\<close>, adds
  the constants \<open>0.3\<close> and \<open>0.5\<close> to a threshold and writes \<open>0.0\<close>, and does nothing else with
  them, so the type of the scores and these five operations are parameters of the model:
  what is proved holds for the arithmetic of doubles (rounding, infinities and NaN
  included) as for any other. \<open>real_ops\<close> reads them over the real numbers.
\<close>

record 'f float_ops =
  flt :: "'f \<Rightarrow> 'f \<Rightarrow> bool"
  fadd :: "'f \<Rightarrow> 'f \<Rightarrow> 'f"
  f00 :: 'f
  f03 :: 'f
  f05 :: 'f

definition real_ops :: "real float_ops" where
  "real_ops = \<lparr>flt = (<), fadd = (+), f00 = 0.0, f03 = 0.3, f05 = 0.5\<rparr>"

text \<open>
  \<open>_get_zipf\<close> is wrapped in \<open>lru_cache(maxsize=50000)\<close>: the state of the module is the
  cache, its entries from the most recently used to the least, with the counters of hits
  and misses that \<open>cache_info()\<close> reports. Every call counts as a hit or as a miss. A
  miss runs the body, which answers \<open>0.0\<close> when the import of the frequency library failed
  (\<open>zipf_frequency is None\<close>), and drops the least recently used entry of a full cache.
\<close>

record 'f lru_cache =
  entries :: "(string \<times> 'f) list"
  hits :: nat
  misses :: nat

definition maxsize :: int where
  "maxsize = 50000"

definition get_zipf ::
  "'f float_ops \<Rightarrow> (string \<Rightarrow> 'f) option \<Rightarrow> string \<Rightarrow> 'f lru_cache \<Rightarrow> 'f \<times> 'f lru_cache" where
  "get_zipf ops zipf_frequency word cache =
     (case map_of (entries cache) word of
        Some v \<Rightarrow>
          (v, cache\<lparr>entries := (word, v) # filter (\<lambda>e. fst e \<noteq> word) (entries cache),
                     hits := hits cache + 1\<rparr>)
      | None \<Rightarrow>
          (let v = (case zipf_frequency of None \<Rightarrow> f00 ops | Some f \<Rightarrow> f word);
               kept = (if maxsize \<le> int (length (entries cache)) then butlast (entries cache)
                       else entries cache)
           in (v, cache\<lparr>entries := (word, v) # kept, misses := misses cache + 1\<rparr>)))"

section \<open>The solver\<close>

text \<open>\<open>WordResult\<close>; its field \<open>length\<close> is \<open>length_wr\<close> here.\<close>

record 'f word_result =
  word :: string
  score :: int
  is_pangram :: bool
  length_wr :: nat
  zipf_score :: 'f

text \<open>The keyword arguments of \<open>solve_spellingbee\<close>, and their defaults.\<close>

record 'f options =
  min_len :: int
  pangram_bonus :: int
  min_zipf :: "'f option"
  max_len :: "int option"
  filter_plurals :: bool
  filter_obscure :: bool
  use_aggressive_filtering :: bool

definition default_options :: "'f options" where
  "default_options =
     \<lparr>min_len = 4, pangram_bonus = 7, min_zipf = None, max_len = Some 10,
      filter_plurals = True, filter_obscure = True, use_aggressive_filtering = False\<rparr>"

text \<open>
  The two \<open>ValueError\<close>s of the configuration check, with the values their messages
  print, and the \<open>OSError\<close> of a word list that cannot be opened.
\<close>

datatype value_error = ExpectedSeven nat | CenterNotAmong string "string list"

datatype error = ValueError value_error | OSError

text \<open>
  The body of the loop for one word of the source: \<open>None\<close> is \<open>continue\<close>, \<open>Some r\<close> is the
  result appended. The oracle is called only with a threshold configured and the
  frequency library present.
\<close>

definition process_word ::
  "'f float_ops \<Rightarrow> (string \<Rightarrow> 'f) option \<Rightarrow> string set \<Rightarrow> string \<Rightarrow> 'f options \<Rightarrow>
   string \<Rightarrow> 'f lru_cache \<Rightarrow> 'f word_result option \<times> 'f lru_cache" where
  "process_word ops zipf_frequency uniq_letters_set center cfg w cache =
     (if \<not> is_valid_word w uniq_letters_set center (min_len cfg)
            (filter_plurals cfg) (filter_obscure cfg)
      then (None, cache)
      else if (case max_len cfg of None \<Rightarrow> False | Some m \<Rightarrow> m < int (length w))
      then (None, cache)
      else
        (let (zipf, rejected, cache') =
           (case (min_zipf cfg, zipf_frequency) of
              (Some t, Some f) \<Rightarrow>
                (let (z, cache') = get_zipf ops zipf_frequency w cache
                 in if flt ops z t then (z, True, cache')
                    else if use_aggressive_filtering cfg then
                      (if 8 \<le> length w \<and> flt ops z (fadd ops t (f03 ops)) then (z, True, cache')
                       else if 9 \<le> length w \<and> flt ops z (fadd ops t (f05 ops))
                       then (z, True, cache')
                       else (z, False, cache'))
                    else (z, False, cache'))
            | _ \<Rightarrow> (f00 ops, False, cache))
         in if rejected then (None, cache')
            else
              (let (sc, is_pg) = score_word w uniq_letters_set (pangram_bonus cfg)
               in (Some \<lparr>word = w, score = sc, is_pangram = is_pg, length_wr = length w,
                          zipf_score = zipf\<rparr>, cache'))))"

fun solve_loop ::
  "'f float_ops \<Rightarrow> (string \<Rightarrow> 'f) option \<Rightarrow> string set \<Rightarrow> string \<Rightarrow> 'f options \<Rightarrow>
   string list \<Rightarrow> 'f word_result list \<Rightarrow> 'f lru_cache \<Rightarrow> 'f word_result list \<times> 'f lru_cache" where
  "solve_loop ops zipf_frequency uniq_letters_set center cfg [] results cache = (results, cache)"
| "solve_loop ops zipf_frequency uniq_letters_set center cfg (w # ws) results cache =
     (case process_word ops zipf_frequency uniq_letters_set center cfg w cache of
        (None, cache') \<Rightarrow>
          solve_loop ops zipf_frequency uniq_letters_set center cfg ws results cache'
      | (Some r, cache') \<Rightarrow>
          solve_loop ops zipf_frequency uniq_letters_set center cfg ws (results @ [r]) cache')"

text \<open>
  \<open>solve_spellingbee\<close>. The word list is \<open>None\<close> when the file cannot be opened and the
  lines of the file otherwise; it is opened when the loop asks for its first word, after
  the configuration check. The result is the error raised or the sorted list, with the
  cache as the call leaves it.
\<close>

definition solve_spellingbee ::
  "'f float_ops \<Rightarrow> (string \<Rightarrow> 'f) option \<Rightarrow> string list \<Rightarrow> string \<Rightarrow> string list option \<Rightarrow>
   'f options \<Rightarrow> 'f lru_cache \<Rightarrow> (error + 'f word_result list) \<times> 'f lru_cache" where
  "solve_spellingbee ops zipf_frequency letters center wordlist cfg cache =
     (let letters' = map py_lower letters;
          center' = py_lower center;
          uniq_letters = sort (remdups letters');
          uniq_letters_set = set uniq_letters
      in if length uniq_letters \<noteq> 7
         then (Inl (ValueError (ExpectedSeven (length uniq_letters))), cache)
         else if center' \<notin> set uniq_letters
         then (Inl (ValueError (CenterNotAmong center' uniq_letters)), cache)
         else
           (case wordlist of
              None \<Rightarrow> (Inl OSError, cache)
            | Some f \<Rightarrow>
                (let (results, cache') =
                       solve_loop ops zipf_frequency uniq_letters_set center' cfg
                         (load_words f) [] cache
                 in (Inr (sort_key (\<lambda>r. (- score r, word r)) results), cache'))))"

section \<open>The invariant of the cache and the words the loop keeps\<close>

text \<open>
  The definitions of this section are not code of the solver: they state the invariant of
  the cache and the closed form of the loop that the theorems below are proved from.

  \<open>oracle_value\<close> is what the body of \<open>_get_zipf\<close> answers for a word. The cache is empty
  when the module is loaded and only \<open>_get_zipf\<close> writes to it, so every entry holds the
  oracle's answer for its word: \<open>cache_ok\<close>.
\<close>

definition oracle_value :: "'f float_ops \<Rightarrow> (string \<Rightarrow> 'f) option \<Rightarrow> string \<Rightarrow> 'f" where
  "oracle_value ops zipf_frequency w = (case zipf_frequency of None \<Rightarrow> f00 ops | Some f \<Rightarrow> f w)"

definition cache_ok :: "'f float_ops \<Rightarrow> (string \<Rightarrow> 'f) option \<Rightarrow> 'f lru_cache \<Rightarrow> bool" where
  "cache_ok ops zipf_frequency cache =
     list_all (\<lambda>e. snd e = oracle_value ops zipf_frequency (fst e)) (entries cache)"

definition empty_cache :: "'f lru_cache" where
  "empty_cache = \<lparr>entries = [], hits = 0, misses = 0\<rparr>"

text \<open>
  A word is kept when it passes the validator, the length cap and, with a threshold
  configured and the frequency library present, the frequency tests on the oracle's
  score; \<open>result_for\<close> is the record appended for a kept word.
\<close>

definition within_max_len :: "'f options \<Rightarrow> string \<Rightarrow> bool" where
  "within_max_len cfg w = (case max_len cfg of None \<Rightarrow> True | Some m \<Rightarrow> int (length w) \<le> m)"

definition frequency_keeps ::
  "'f float_ops \<Rightarrow> (string \<Rightarrow> 'f) option \<Rightarrow> 'f options \<Rightarrow> string \<Rightarrow> bool" where
  "frequency_keeps ops zipf_frequency cfg w =
     (case (min_zipf cfg, zipf_frequency) of
        (Some t, Some f) \<Rightarrow>
          \<not> flt ops (f w) t \<and>
          \<not> (use_aggressive_filtering cfg \<and>
               (8 \<le> length w \<and> flt ops (f w) (fadd ops t (f03 ops))
                \<or> 9 \<le> length w \<and> flt ops (f w) (fadd ops t (f05 ops))))
      | _ \<Rightarrow> True)"

definition keeps ::
  "'f float_ops \<Rightarrow> (string \<Rightarrow> 'f) option \<Rightarrow> string set \<Rightarrow> string \<Rightarrow> 'f options \<Rightarrow> string \<Rightarrow> bool" where
  "keeps ops zipf_frequency ls c cfg w =
     (is_valid_word w ls c (min_len cfg) (filter_plurals cfg) (filter_obscure cfg)
      \<and> within_max_len cfg w \<and> frequency_keeps ops zipf_frequency cfg w)"

definition result_for ::
  "'f float_ops \<Rightarrow> (string \<Rightarrow> 'f) option \<Rightarrow> string set \<Rightarrow> 'f options \<Rightarrow> string \<Rightarrow> 'f word_result" where
  "result_for ops zipf_frequency ls cfg w =
     \<lparr>word = w, score = fst (score_word w ls (pangram_bonus cfg)),
      is_pangram = snd (score_word w ls (pangram_bonus cfg)), length_wr = length w,
      zipf_score = (case (min_zipf cfg, zipf_frequency) of
                      (Some t, Some f) \<Rightarrow> f w | _ \<Rightarrow> f00 ops)\<rparr>"

section \<open>Example inputs\<close>

text \<open>
  The puzzle of the module's own constants (\<open>LETTERS = "AELNRST"\<close>, \<open>CENTER = "N"\<close>,
  \<open>MIN_ZIPF = 3.6\<close>), two small word lists and a frequency oracle, with the results the
  solver computes for them.
\<close>

definition example_letters :: "string list" where
  "example_letters = [''A'', ''E'', ''L'', ''N'', ''R'', ''S'', ''T'']"

definition short_letters :: "string list" where
  "short_letters = [''A'', ''E'', ''L'', ''N'', ''R'', ''S'']"

definition example_lines :: "string list" where
  "example_lines =
     [''Rental'' @ [newline], ''learnt s'' @ [newline], ''earn'' @ [newline],
      ''tents'' @ [newline], ''slanter'']"

definition example_results :: "real word_result list" where
  "example_results =
     [\<lparr>word = ''slanter'', score = 14, is_pangram = True, length_wr = 7, zipf_score = 0\<rparr>,
      \<lparr>word = ''rental'', score = 6, is_pangram = False, length_wr = 6, zipf_score = 0\<rparr>,
      \<lparr>word = ''earn'', score = 1, is_pangram = False, length_wr = 4, zipf_score = 0\<rparr>]"

definition frequency_lines :: "string list" where
  "frequency_lines =
     [''rental'' @ [newline], ''alternate'' @ [newline], ''translate'' @ [newline],
      ''earn'' @ [newline]]"

definition example_zipf :: "string \<Rightarrow> real" where
  "example_zipf w =
     (if w = ''rental'' then 4.2 else if w = ''alternate'' then 3.8
      else if w = ''translate'' then 4.0 else 3.0)"

definition threshold_options :: "real options" where
  "threshold_options = default_options\<lparr>min_zipf := Some 3.6\<rparr>"

definition aggressive_options :: "real options" where
  "aggressive_options = default_options\<lparr>min_zipf := Some 3.6, use_aggressive_filtering := True\<rparr>"

definition no_threshold_options :: "real options" where
  "no_threshold_options = default_options\<lparr>use_aggressive_filtering := True\<rparr>"

definition filled_cache :: "real lru_cache" where
  "filled_cache =
     \<lparr>entries = [(''earn'', 3), (''translate'', 4), (''alternate'', 3.8), (''rental'', 4.2)],
      hits = 0, misses = 4\<rparr>"

definition aggressive_results :: "real word_result list" where
  "aggressive_results =
     [\<lparr>word = ''rental'', score = 6, is_pangram = False, length_wr = 6, zipf_score = 4.2\<rparr>]"

definition threshold_results :: "real word_result list" where
  "threshold_results =
     [\<lparr>word = ''translate'', score = 16, is_pangram = True, length_wr = 9, zipf_score = 4\<rparr>,
      \<lparr>word = ''alternate'', score = 9, is_pangram = False, length_wr = 9, zipf_score = 3.8\<rparr>,
      \<lparr>word = ''rental'', score = 6, is_pangram = False, length_wr = 6, zipf_score = 4.2\<rparr>]"

definition unfiltered_results :: "real word_result list" where
  "unfiltered_results =
     [\<lparr>word = ''translate'', score = 16, is_pangram = True, length_wr = 9, zipf_score = 0\<rparr>,
      \<lparr>word = ''alternate'', score = 9, is_pangram = False, length_wr = 9, zipf_score = 0\<rparr>,
      \<lparr>word = ''rental'', score = 6, is_pangram = False, length_wr = 6, zipf_score = 0\<rparr>,
      \<lparr>word = ''earn'', score = 1, is_pangram = False, length_wr = 4, zipf_score = 0\<rparr>]"

section \<open>What the patterns match\<close>

text \<open>A repetition matches some number of characters, at least its minimum, before the rest matches.\<close>

lemma rep_match:
  "re_match_at (Rep a n # p) pos s \<longleftrightarrow>
     (\<exists>k. n \<le> k \<and> k \<le> length s \<and> (\<forall>c\<in>set (take k s). atom_matches a c) \<and>
          re_match_at p (pos + k) (drop k s))"
proof (induction s arbitrary: n pos)
  case Nil
  then show ?case by auto
next
  case (Cons c cs)
  show ?case (is "?L \<longleftrightarrow> ?R")
  proof
    assume ?L
    then consider (take) "atom_matches a c" "re_match_at (Rep a (n - 1) # p) (Suc pos) cs"
      | (stop) "n = 0" "re_match_at p pos (c # cs)"
      by auto
    then show ?R
    proof cases
      case take
      then obtain k where k: "n - 1 \<le> k" "k \<le> length cs"
          "\<forall>c\<in>set (take k cs). atom_matches a c" "re_match_at p (Suc pos + k) (drop k cs)"
        using Cons.IH by blast
      with take(1) show ?thesis
        by (intro exI[of _ "Suc k"]) auto
    next
      case stop
      then show ?thesis by (intro exI[of _ 0]) auto
    qed
  next
    assume ?R
    then obtain k where k: "n \<le> k" "k \<le> length (c # cs)"
        "\<forall>x\<in>set (take k (c # cs)). atom_matches a x" "re_match_at p (pos + k) (drop k (c # cs))"
      by blast
    show ?L
    proof (cases k)
      case 0
      with k show ?thesis by simp
    next
      case (Suc j)
      with k have "n - 1 \<le> j" "j \<le> length cs" "\<forall>x\<in>set (take j cs). atom_matches a x"
        "re_match_at p (Suc pos + j) (drop j cs)" "atom_matches a c"
        by auto
      then have "re_match_at (Rep a (n - 1) # p) (Suc pos) cs"
        using Cons.IH by blast
      with \<open>atom_matches a c\<close> show ?thesis by simp
    qed
  qed
qed

lemma long_pattern:
  assumes "newline \<notin> set w"
  shows "re_match [Bol, Rep AnyChar 15, Eol] w \<longleftrightarrow> 15 \<le> length w"
proof
  assume "re_match [Bol, Rep AnyChar 15, Eol] w"
  then obtain k where k: "15 \<le> k" "k \<le> length w" "drop k w = [] \<or> drop k w = [newline]"
    by (auto simp: re_match_def rep_match)
  then show "15 \<le> length w" by simp
next
  assume "15 \<le> length w"
  with assms show "re_match [Bol, Rep AnyChar 15, Eol] w"
    by (auto simp: re_match_def rep_match intro!: exI[of _ "length w"])
qed

lemma nth_in_take_drop:
  assumes "k + m < length w" "m < j"
  shows "w ! (k + m) \<in> set (take j (drop k w))"
proof -
  have "m < length (take j (drop k w))" using assms by simp
  then have "take j (drop k w) ! m \<in> set (take j (drop k w))" by (rule nth_mem)
  moreover have "take j (drop k w) ! m = w ! (k + m)" using assms by simp
  ultimately show ?thesis by simp
qed

lemma rare_pattern:
  assumes "newline \<notin> set w"
  shows "re_match [Rep AnyChar 0, Rep (OneOf ''qxz'') 2, Rep AnyChar 0] w \<longleftrightarrow>
         (\<exists>i. Suc i < length w \<and> w ! i \<in> set ''qxz'' \<and> w ! Suc i \<in> set ''qxz'')"
    (is "?L \<longleftrightarrow> ?R")
proof
  assume ?L
  then obtain k j where kj: "k \<le> length w" "2 \<le> j" "j \<le> length (drop k w)"
      "\<forall>c\<in>set (take j (drop k w)). atom_matches (OneOf ''qxz'') c"
    unfolding re_match_def rep_match by blast
  have len: "Suc k < length w" using kj by simp
  have "w ! k \<in> set (take j (drop k w))" "w ! Suc k \<in> set (take j (drop k w))"
    using kj(2) len nth_in_take_drop[of k 0 w j] nth_in_take_drop[of k 1 w j] by simp_all
  then have "atom_matches (OneOf ''qxz'') (w ! k)" "atom_matches (OneOf ''qxz'') (w ! Suc k)"
    using kj(4) by simp_all
  then have "w ! k \<in> set ''qxz''" "w ! Suc k \<in> set ''qxz''"
    by (simp_all only: atom_matches.simps)
  with len show ?R by blast
next
  assume ?R
  then obtain i where i: "Suc i < length w" "w ! i \<in> set ''qxz''" "w ! Suc i \<in> set ''qxz''"
    by blast
  have "drop i w = w ! i # drop (Suc i) w" "drop (Suc i) w = w ! Suc i # drop (Suc (Suc i)) w"
    using i(1) by (simp_all add: Cons_nth_drop_Suc)
  then have two: "take 2 (drop i w) = [w ! i, w ! Suc i]"
    by (simp add: numeral_2_eq_2)
  have a: "\<forall>c\<in>set (take i w). atom_matches AnyChar c"
    using assms by (auto dest: in_set_takeD)
  have b: "\<forall>c\<in>set (take 2 (drop i w)). atom_matches (OneOf ''qxz'') c"
    unfolding two using i(2,3) by simp
  have c: "re_match_at [Rep AnyChar 0] (0 + i + 2) (drop 2 (drop i w))"
    unfolding rep_match by (rule exI[of _ 0]) simp
  have d: "re_match_at [Rep (OneOf ''qxz'') 2, Rep AnyChar 0] (0 + i) (drop i w)"
    unfolding rep_match[of "OneOf ''qxz''"]
    using b c i(1) by (intro exI[of _ 2]) simp
  show ?L
    unfolding re_match_def rep_match[of AnyChar 0 "[Rep (OneOf ''qxz'') 2, Rep AnyChar 0]"]
    using a d i(1) by (intro exI[of _ i]) simp
qed


section \<open>The words of the source\<close>

text \<open>Every word that \<open>_load_words\<close> yields is a non-empty string of the letters \<open>a\<close> to \<open>z\<close>.\<close>

lemma lower_char_newline:
  assumes "lower_char c = newline"
  shows "c = newline"
proof -
  have "of_char (lower_char c) = (10 :: nat)"
    using assms by (simp add: newline_def)
  then have "of_char c = (10 :: nat)"
    by (auto simp: lower_char_def Let_def split: if_splits)
  then have "of_char c = (of_char newline :: nat)"
    by (simp add: newline_def)
  then show ?thesis by (simp only: of_char_eq_iff)
qed

lemma isspace_newline: "py_isspace newline"
  by (simp add: py_isspace_def newline_def)

lemma last_strip:
  assumes "py_strip s \<noteq> []"
  shows "\<not> py_isspace (last (py_strip s))"
proof -
  define t where "t = dropWhile py_isspace (rev (dropWhile py_isspace s))"
  have s: "py_strip s = rev t" by (simp add: py_strip_def t_def)
  with assms have "t \<noteq> []" by simp
  then have "\<not> py_isspace (hd t)" unfolding t_def by (rule hd_dropWhile)
  moreover have "last (rev t) = hd t" using \<open>t \<noteq> []\<close> by (simp add: last_rev)
  ultimately show ?thesis by (simp add: s)
qed

lemma last_lower_strip:
  assumes "py_lower (py_strip line) \<noteq> []"
  shows "last (py_lower (py_strip line)) \<noteq> newline"
proof
  assume n: "last (py_lower (py_strip line)) = newline"
  from assms have ne: "py_strip line \<noteq> []" by (auto simp: py_lower_def)
  then have "last (py_lower (py_strip line)) = lower_char (last (py_strip line))"
    by (simp add: py_lower_def last_map)
  with n have "last (py_strip line) = newline" by (simp add: lower_char_newline)
  with last_strip[OF ne] isspace_newline show False by simp
qed

lemma word_re_match:
  assumes "re_match WORD_RE w" "w = [] \<or> last w \<noteq> newline"
  shows "w \<noteq> [] \<and> (\<forall>c\<in>set w. CHR ''a'' \<le> c \<and> c \<le> CHR ''z'')"
proof -
  from assms(1) obtain k where k: "1 \<le> k" "k \<le> length w"
      "\<forall>c\<in>set (take k w). atom_matches (Range CHR ''a'' CHR ''z'') c"
      "drop k w = [] \<or> drop k w = [newline]"
    unfolding re_match_def WORD_RE_def rep_match re_match_at.simps by auto
  have ne: "w \<noteq> []" using k(1,2) by auto
  have "drop k w \<noteq> [newline]"
  proof
    assume d: "drop k w = [newline]"
    have "w = take k w @ drop k w" by simp
    then have "last w = last (take k w @ [newline])" using d by simp
    then have "last w = newline" by simp
    with assms(2) ne show False by simp
  qed
  with k(4) have "drop k w = []" by simp
  then have "take k w = w" by simp
  with k(3) ne show ?thesis by simp
qed

lemma load_words_entries:
  assumes "w \<in> set (load_words f)"
  shows "w \<noteq> [] \<and> (\<forall>c\<in>set w. CHR ''a'' \<le> c \<and> c \<le> CHR ''z'')"
  using assms
proof (induction f)
  case Nil
  then show ?case by simp
next
  case (Cons line f)
  show ?case
  proof (cases "w \<in> set (load_words f)")
    case True
    then show ?thesis by (rule Cons.IH)
  next
    case False
    with Cons.prems have w: "w = py_lower (py_strip line)" and m: "re_match WORD_RE w"
      by (auto simp: Let_def split: if_splits)
    from w have "w = [] \<or> last w \<noteq> newline"
      using last_lower_strip[of line] by auto
    with m show ?thesis by (rule word_re_match)
  qed
qed

lemma load_words_no_newline:
  assumes "w \<in> set (load_words f)"
  shows "newline \<notin> set w"
proof
  assume "newline \<in> set w"
  with load_words_entries[OF assms] have "CHR ''a'' \<le> newline" by blast
  then show False by (simp add: newline_def)
qed

section \<open>The heuristics\<close>

lemma exclude_patterns_loop_iff:
  "exclude_patterns_loop ps w \<longleftrightarrow> (\<exists>p\<in>set ps. re_match p w)"
  by (induction ps) auto

lemma sixty_percent: "real n * 0.6 \<le> real m \<longleftrightarrow> 3 * n \<le> 5 * m"
proof -
  have "real n * 0.6 \<le> real m \<longleftrightarrow> real (3 * n) \<le> real (5 * m)"
    by (simp add: field_simps)
  then show ?thesis by (simp only: of_nat_le_iff)
qed

lemma repeated_char_loop_iff:
  "repeated_char_loop cs w \<longleftrightarrow> (\<exists>c\<in>set cs. 3 * length w \<le> 5 * count_list w c)"
  by (induction cs) (auto simp: sixty_percent)

text \<open>
  C6. A word is flagged as a likely plural exactly when it ends in \<open>s\<close>, has more than four
  characters, does not end in \<open>ss\<close>, and ends in none of \<open>ous\<close>, \<open>ness\<close>, \<open>less\<close>, \<open>ious\<close>
  and \<open>us\<close>.
\<close>

theorem is_likely_plural_iff:
  "is_likely_plural w \<longleftrightarrow>
     suffix ''s'' w \<and> 4 < length w \<and> \<not> suffix ''ss'' w \<and>
     \<not> suffix ''ous'' w \<and> \<not> suffix ''ness'' w \<and> \<not> suffix ''less'' w \<and>
     \<not> suffix ''ious'' w \<and> \<not> suffix ''us'' w"
  by (auto simp: is_likely_plural_def non_plural_endings_def)

theorem is_likely_plural_iff_witness:
  "is_likely_plural ''tents'' \<and> \<not> is_likely_plural ''arts'' \<and> \<not> is_likely_plural ''census''"
  using is_likely_plural_iff [of "''tents''"] is_likely_plural_iff [of "''arts''"]
    is_likely_plural_iff [of "''census''"]
  by (simp add: suffix_to_prefix)

text \<open>
  C7. A word (a string without a newline, as every word of the source is by
  \<open>load_words_no_newline\<close>) is flagged as
  obscure exactly when it has at least 15 characters, or two adjacent characters of it
  are among \<open>q\<close>, \<open>x\<close> and \<open>z\<close>, or it has at least 6 characters and one character makes up
  at least 60 percent of them.
\<close>

theorem is_obscure_word_iff:
  assumes "newline \<notin> set w"
  shows "is_obscure_word w \<longleftrightarrow>
     15 \<le> length w
     \<or> (\<exists>i. Suc i < length w \<and> w ! i \<in> {CHR ''q'', CHR ''x'', CHR ''z''}
            \<and> w ! Suc i \<in> {CHR ''q'', CHR ''x'', CHR ''z''})
     \<or> (6 \<le> length w \<and> (\<exists>c\<in>set w. 3 * length w \<le> 5 * count_list w c))"
proof -
  have "exclude_patterns_loop EXCLUDE_PATTERNS w \<longleftrightarrow>
        15 \<le> length w
        \<or> (\<exists>i. Suc i < length w \<and> w ! i \<in> set ''qxz'' \<and> w ! Suc i \<in> set ''qxz'')"
    by (simp only: EXCLUDE_PATTERNS_def exclude_patterns_loop.simps
          long_pattern[OF assms] rare_pattern[OF assms] if_True if_False split: if_split)
      auto
  then show ?thesis
    by (auto simp: is_obscure_word_def repeated_char_loop_iff)
qed

theorem is_obscure_word_iff_witness:
  "newline \<notin> set ''muumuu'' \<and> is_obscure_word ''muumuu'' \<and>
   newline \<notin> set ''abcdefghijklmno'' \<and> is_obscure_word ''abcdefghijklmno''"
  using is_obscure_word_iff [of "''muumuu''"] is_obscure_word_iff [of "''abcdefghijklmno''"]
  by (simp add: newline_def)

section \<open>The solver on the example inputs\<close>

lemma example_run:
  "solve_spellingbee real_ops None example_letters ''N'' (Some example_lines)
     default_options empty_cache = (Inr example_results, empty_cache)"
  by code_simp

lemma example_run_threshold:
  "solve_spellingbee real_ops (Some example_zipf) example_letters ''N'' (Some frequency_lines)
     threshold_options empty_cache = (Inr threshold_results, filled_cache)"
  by code_simp

lemma example_run_aggressive:
  "solve_spellingbee real_ops (Some example_zipf) example_letters ''N'' (Some frequency_lines)
     aggressive_options empty_cache = (Inr aggressive_results, filled_cache)"
  by code_simp

lemma example_run_degraded:
  "solve_spellingbee real_ops None example_letters ''N'' (Some frequency_lines)
     aggressive_options empty_cache = (Inr unfiltered_results, empty_cache)"
  by code_simp

lemma example_run_no_threshold:
  "solve_spellingbee real_ops (Some example_zipf) example_letters ''N'' (Some frequency_lines)
     no_threshold_options empty_cache = (Inr unfiltered_results, empty_cache)"
  by code_simp

lemma empty_cache_ok: "cache_ok ops zf empty_cache"
  by (simp add: cache_ok_def empty_cache_def)

section \<open>The cache\<close>

lemma map_of_cache_ok:
  assumes "cache_ok ops zf cache" "map_of (entries cache) w = Some v"
  shows "v = oracle_value ops zf w"
proof -
  have "(w, v) \<in> set (entries cache)" using assms(2) by (rule map_of_SomeD)
  with assms(1) show ?thesis by (auto simp: cache_ok_def list_all_iff)
qed

lemma get_zipf_value:
  "cache_ok ops zf cache \<Longrightarrow> fst (get_zipf ops zf w cache) = oracle_value ops zf w"
  by (auto simp: get_zipf_def Let_def oracle_value_def split: option.splits
      dest: map_of_cache_ok)

lemma get_zipf_ok:
  assumes "cache_ok ops zf cache"
  shows "cache_ok ops zf (snd (get_zipf ops zf w cache))"
proof (cases "map_of (entries cache) w")
  case None
  have "set (butlast (entries cache)) \<subseteq> set (entries cache)"
    by (auto dest: in_set_butlastD)
  with assms None show ?thesis
    by (auto simp: get_zipf_def Let_def cache_ok_def list_all_iff oracle_value_def
        split: option.splits)
next
  case (Some v)
  with assms have "v = oracle_value ops zf w" by (simp add: map_of_cache_ok)
  with assms Some show ?thesis
    by (auto simp: get_zipf_def cache_ok_def list_all_iff)
qed

lemma get_zipf_counts:
  "hits (snd (get_zipf ops zf w cache)) + misses (snd (get_zipf ops zf w cache))
     = hits cache + misses cache + 1"
  by (auto simp: get_zipf_def Let_def split: option.splits)

section \<open>The loop\<close>

lemma process_word_inactive:
  assumes "min_zipf cfg = None \<or> zf = None"
  shows "process_word ops zf ls c cfg w cache =
           (if keeps ops zf ls c cfg w then Some (result_for ops zf ls cfg w) else None, cache)"
  using assms
  by (auto simp: process_word_def keeps_def result_for_def within_max_len_def
      frequency_keeps_def split_beta split: option.splits)

lemma process_word_active:
  assumes "cache_ok ops zf cache"
  shows "fst (process_word ops zf ls c cfg w cache) =
           (if keeps ops zf ls c cfg w then Some (result_for ops zf ls cfg w) else None)"
    and "cache_ok ops zf (snd (process_word ops zf ls c cfg w cache))"
proof -
  have v: "fst (get_zipf ops zf w cache) = oracle_value ops zf w"
    using assms by (rule get_zipf_value)
  have ok: "cache_ok ops zf (snd (get_zipf ops zf w cache))"
    using assms by (rule get_zipf_ok)
  show "fst (process_word ops zf ls c cfg w cache) =
           (if keeps ops zf ls c cfg w then Some (result_for ops zf ls cfg w) else None)"
    using v
    by (auto simp: process_word_def keeps_def result_for_def within_max_len_def
        frequency_keeps_def split_beta oracle_value_def Let_def split: option.splits)
  show "cache_ok ops zf (snd (process_word ops zf ls c cfg w cache))"
    using ok assms
    by (auto simp: process_word_def split_beta Let_def split: option.splits)
qed

lemma solve_loop_inactive:
  assumes "min_zipf cfg = None \<or> zf = None"
  shows "solve_loop ops zf ls c cfg ws results cache =
           (results @ map (result_for ops zf ls cfg) (filter (keeps ops zf ls c cfg) ws), cache)"
  using assms
  by (induction ws arbitrary: results) (simp_all add: process_word_inactive)

lemma solve_loop_active:
  assumes "cache_ok ops zf cache"
  shows "fst (solve_loop ops zf ls c cfg ws results cache) =
           results @ map (result_for ops zf ls cfg) (filter (keeps ops zf ls c cfg) ws)
         \<and> cache_ok ops zf (snd (solve_loop ops zf ls c cfg ws results cache))"
  using assms
proof (induction ws arbitrary: results cache)
  case Nil
  then show ?case by simp
next
  case (Cons w ws)
  obtain o' cache' where pw: "process_word ops zf ls c cfg w cache = (o', cache')"
    by (cases "process_word ops zf ls c cfg w cache")
  from process_word_active[OF Cons.prems, of ls c cfg w] pw
  have o': "o' = (if keeps ops zf ls c cfg w then Some (result_for ops zf ls cfg w) else None)"
    and ok: "cache_ok ops zf cache'"
    by simp_all
  show ?case
    using Cons.IH[OF ok] pw o' by (simp split: option.splits)
qed

section \<open>The solver\<close>

lemma uniq_letters_length: "length (sort (remdups xs)) = card (set xs)"
  by (simp add: length_remdups_card_conv)

lemma solve_unfold:
  "solve_spellingbee ops zf letters center wordlist cfg cache =
     (if card (set (map py_lower letters)) \<noteq> 7
      then (Inl (ValueError (ExpectedSeven (card (set (map py_lower letters))))), cache)
      else if py_lower center \<notin> set (map py_lower letters)
      then (Inl (ValueError (CenterNotAmong (py_lower center)
                   (sort (remdups (map py_lower letters))))), cache)
      else
        (case wordlist of
           None \<Rightarrow> (Inl OSError, cache)
         | Some f \<Rightarrow>
             (Inr (sort_key (\<lambda>r. (- score r, word r))
                (fst (solve_loop ops zf (set (map py_lower letters)) (py_lower center) cfg
                   (load_words f) [] cache))),
              snd (solve_loop ops zf (set (map py_lower letters)) (py_lower center) cfg
                   (load_words f) [] cache))))"
  unfolding solve_spellingbee_def Let_def uniq_letters_length set_sort set_remdups split_beta
  by (rule refl)

text \<open>Every solve keeps the invariant of the cache.\<close>

lemma solve_keeps_cache_ok:
  assumes "cache_ok ops zf cache"
  shows "cache_ok ops zf (snd (solve_spellingbee ops zf letters center wordlist cfg cache))"
  unfolding solve_unfold
  using assms solve_loop_active[OF assms]
  by (simp split: option.splits)

lemma solve_Inr:
  assumes "solve_spellingbee ops zf letters center wordlist cfg cache = (Inr rs, cache')"
  shows "\<exists>f. wordlist = Some f
           \<and> card (set (map py_lower letters)) = 7
           \<and> py_lower center \<in> set (map py_lower letters)
           \<and> rs = sort_key (\<lambda>r. (- score r, word r))
                     (fst (solve_loop ops zf (set (map py_lower letters)) (py_lower center) cfg
                        (load_words f) [] cache))
           \<and> cache' = snd (solve_loop ops zf (set (map py_lower letters)) (py_lower center) cfg
                        (load_words f) [] cache)"
proof (cases "card (set (map py_lower letters)) \<noteq> 7
              \<or> py_lower center \<notin> set (map py_lower letters)")
  case True
  then show ?thesis
    using assms unfolding solve_unfold by (simp split: if_splits)
next
  case False
  then have c: "card (set (map py_lower letters)) = 7"
    "py_lower center \<in> set (map py_lower letters)"
    by simp_all
  show ?thesis
  proof (cases wordlist)
    case None
    then show ?thesis using assms c unfolding solve_unfold by (simp only: if_False simp_thms option.case prod.inject sum.distinct not_True_eq_False if_True)
  next
    case (Some f)
    then show ?thesis using assms c unfolding solve_unfold
      by (simp only: if_False simp_thms option.case prod.inject sum.inject not_True_eq_False if_True option.inject)
  qed
qed

lemma process_word_Some:
  assumes "process_word ops zf ls c cfg w cache = (Some r, cache')"
  shows "word r = w"
    and "is_valid_word w ls c (min_len cfg) (filter_plurals cfg) (filter_obscure cfg)"
  using assms
  by (auto simp: process_word_def split_beta Let_def split: if_splits option.splits)

lemma solve_loop_valid:
  assumes "\<forall>r\<in>set results.
             is_valid_word (word r) ls c (min_len cfg) (filter_plurals cfg) (filter_obscure cfg)"
  shows "\<forall>r\<in>set (fst (solve_loop ops zf ls c cfg ws results cache)).
           is_valid_word (word r) ls c (min_len cfg) (filter_plurals cfg) (filter_obscure cfg)"
  using assms
proof (induction ws arbitrary: results cache)
  case Nil
  then show ?case by simp
next
  case (Cons w ws)
  obtain o' cache' where pw: "process_word ops zf ls c cfg w cache = (o', cache')"
    by (cases "process_word ops zf ls c cfg w cache")
  show ?case
  proof (cases o')
    case None
    with pw Cons show ?thesis by simp
  next
    case (Some r)
    with pw process_word_Some[of ops zf ls c cfg w cache r cache']
    have "\<forall>x\<in>set (results @ [r]).
            is_valid_word (word x) ls c (min_len cfg) (filter_plurals cfg) (filter_obscure cfg)"
      using Cons.prems by auto
    from Cons.IH[OF this] pw Some show ?thesis by simp
  qed
qed

lemma sublist_single: "sublist [ch] w \<longleftrightarrow> ch \<in> set w"
  by (induction w) (auto simp: sublist_Cons_right)

lemma is_valid_wordD:
  assumes "is_valid_word w ls c ml fp fo"
  shows "ml \<le> int (length w)" "sublist c w" "py_set w \<subseteq> ls"
  using assms by (auto simp: is_valid_word_def split: if_splits)

text \<open>
  C1. Every result of a solve has a word of at least \<open>min_len\<close> characters that contains
  the lower-cased center (as a substring, which for a center of one character is
  membership of that character) and all of whose characters are among the seven
  lower-cased letters.
\<close>

theorem solve_results_valid:
  assumes "solve_spellingbee ops zf letters center wordlist cfg cache = (Inr rs, cache')"
    and "r \<in> set rs"
  shows "min_len cfg \<le> int (length (word r))
       \<and> sublist (py_lower center) (word r)
       \<and> (\<forall>ch. py_lower center = [ch] \<longrightarrow> ch \<in> set (word r))
       \<and> (\<forall>ch\<in>set (word r). [ch] \<in> set (map py_lower letters))
       \<and> card (set (map py_lower letters)) = 7"
proof -
  from solve_Inr[OF assms(1)] obtain f where f:
    "card (set (map py_lower letters)) = 7"
    "rs = sort_key (\<lambda>r. (- score r, word r))
            (fst (solve_loop ops zf (set (map py_lower letters)) (py_lower center) cfg
               (load_words f) [] cache))"
    by blast
  from f(2) assms(2)
  have "r \<in> set (fst (solve_loop ops zf (set (map py_lower letters)) (py_lower center) cfg
               (load_words f) [] cache))"
    by simp
  with solve_loop_valid[of "[]" "set (map py_lower letters)" "py_lower center" cfg ops zf
      "load_words f" cache]
  have v: "is_valid_word (word r) (set (map py_lower letters)) (py_lower center) (min_len cfg)
             (filter_plurals cfg) (filter_obscure cfg)"
    by simp
  note d = is_valid_wordD[OF v]
  have "\<forall>ch. py_lower center = [ch] \<longrightarrow> ch \<in> set (word r)"
    using d(2) by (auto simp: sublist_single)
  moreover have "\<forall>ch\<in>set (word r). [ch] \<in> set (map py_lower letters)"
    using d(3) by (auto simp: py_set_def)
  ultimately show ?thesis using d(1,2) f(1) by blast
qed

theorem solve_results_valid_witness:
  "solve_spellingbee real_ops None example_letters ''N'' (Some example_lines)
     default_options empty_cache = (Inr example_results, empty_cache)
   \<and> example_results ! 1 \<in> set example_results
   \<and> word (example_results ! 1) = ''rental''
   \<and> min_len (default_options :: real options) \<le> int (length (word (example_results ! 1)))
   \<and> CHR ''n'' \<in> set (word (example_results ! 1))
   \<and> card (set (map py_lower example_letters)) = 7"
proof -
  have mem: "example_results ! 1 \<in> set example_results"
    by (simp add: example_results_def)
  have w: "word (example_results ! 1) = ''rental''"
    by (simp add: example_results_def)
  have low: "py_lower ''N'' = [CHR ''n'']"
    by code_simp
  from solve_results_valid [OF example_run mem] low
  have "min_len (default_options :: real options) \<le> int (length (word (example_results ! 1)))"
    "CHR ''n'' \<in> set (word (example_results ! 1))"
    "card (set (map py_lower example_letters)) = 7"
    by blast+
  with example_run mem w show ?thesis by blast
qed

text \<open>
  C2. Of two results of a solve, the earlier one has the higher score, or the same score
  and a word that is not after the later one's in lexicographic order.
\<close>

theorem solve_results_sorted:
  assumes "solve_spellingbee ops zf letters center wordlist cfg cache = (Inr rs, cache')"
    and "i < j" and "j < length rs"
  shows "score (rs ! j) < score (rs ! i)
       \<or> (score (rs ! i) = score (rs ! j) \<and> word (rs ! i) \<le> word (rs ! j))"
proof -
  from solve_Inr[OF assms(1)] obtain xs where
    rs: "rs = sort_key (\<lambda>r. (- score r, word r)) xs"
    by blast
  have "sorted (map (\<lambda>r. (- score r, word r)) rs)"
    unfolding rs by (rule sorted_sort_key)
  then have "map (\<lambda>r. (- score r, word r)) rs ! i \<le> map (\<lambda>r. (- score r, word r)) rs ! j"
    using assms(2,3) by (simp add: sorted_iff_nth_mono del: nth_map)
  then have "(- score (rs ! i), word (rs ! i)) \<le> (- score (rs ! j), word (rs ! j))"
    using assms(2,3) by simp
  then show ?thesis
    by (auto simp: less_eq_prod_def)
qed

theorem solve_results_sorted_witness:
  "solve_spellingbee real_ops None example_letters ''N'' (Some example_lines)
     default_options empty_cache = (Inr example_results, empty_cache)
   \<and> (1 :: nat) < 2 \<and> 2 < length example_results
   \<and> (score (example_results ! 2) < score (example_results ! 1)
        \<or> (score (example_results ! 1) = score (example_results ! 2)
            \<and> word (example_results ! 1) \<le> word (example_results ! 2)))"
proof -
  have a: "(1 :: nat) < 2" by simp
  have b: "2 < length example_results" by (simp add: example_results_def)
  from solve_results_sorted [OF example_run a b] example_run a b show ?thesis by blast
qed

section \<open>The scorer, the validator and the configuration check\<close>

text \<open>
  C3. The scorer's flag is true exactly when every letter of the letter set is a character
  of the word, and its points are 1 for a word of four characters, the length of the
  word otherwise, plus the pangram bonus (7 by default) exactly when the flag is true.
\<close>

theorem score_word_spec:
  "snd (score_word w ls bonus) = (ls \<subseteq> py_set w)
   \<and> fst (score_word w ls bonus) =
       (if length w = 4 then 1 else int (length w))
       + (if snd (score_word w ls bonus) then bonus else 0)
   \<and> (snd (score_word w ((\<lambda>c. [c]) ` L) bonus) = (L \<subseteq> set w))
   \<and> pangram_bonus (default_options :: 'f options) = 7"
  by (auto simp: score_word_def is_pangram_word_def py_set_def Let_def default_options_def)

theorem score_word_spec_witness:
  "snd (score_word ''slanter'' (set (map py_lower example_letters)) 7)
   \<and> fst (score_word ''slanter'' (set (map py_lower example_letters)) 7) = 14
   \<and> \<not> snd (score_word ''earn'' (set (map py_lower example_letters)) 7)
   \<and> fst (score_word ''earn'' (set (map py_lower example_letters)) 7) = 1"
proof -
  define ls where "ls = set (map py_lower example_letters)"
  have p: "ls \<subseteq> py_set ''slanter''" "\<not> ls \<subseteq> py_set ''earn''"
    unfolding ls_def by code_simp+
  note s = score_word_spec [of "''slanter''" ls 7 "{}"]
  note e = score_word_spec [of "''earn''" ls 7 "{}"]
  have s1: "snd (score_word ''slanter'' ls 7)"
    using s p(1) by blast
  have "fst (score_word ''slanter'' ls 7) =
          (if length ''slanter'' = 4 then 1 else int (length ''slanter'')) + 7"
    using s s1 by presburger
  then have s2: "fst (score_word ''slanter'' ls 7) = 14"
    by simp
  have e1: "\<not> snd (score_word ''earn'' ls 7)"
    using e p(2) by blast
  have "fst (score_word ''earn'' ls 7) =
          (if length ''earn'' = 4 then 1 else int (length ''earn'')) + 0"
    using e e1 by presburger
  then have e2: "fst (score_word ''earn'' ls 7) = 1"
    by simp
  show ?thesis using s1 s2 e1 e2 unfolding ls_def by blast
qed

text \<open>
  C5, as the code has it. The validator answers false exactly when the word is shorter
  than \<open>min_len\<close>, or the center is not in it, or one of its characters is not among the
  letters, or the plural filter is on and the word is a likely plural, or the obscurity
  filter is on and the word is obscure. Both filters are on by default, so the call with
  four arguments is not the structural test alone: \<open>tents\<close> passes the three structural
  tests and is refused as a likely plural.
\<close>

theorem is_valid_word_iff:
  "is_valid_word w ls c ml fp fo \<longleftrightarrow>
     ml \<le> int (length w) \<and> sublist c w \<and> py_set w \<subseteq> ls
     \<and> \<not> (fp \<and> is_likely_plural w) \<and> \<not> (fo \<and> is_obscure_word w)"
  by (auto simp: is_valid_word_def)

theorem is_valid_word_iff_witness:
  "is_valid_word ''rental'' (set (map py_lower example_letters)) ''n'' 4 True True
   \<and> \<not> is_valid_word ''tents'' (set (map py_lower example_letters)) ''n'' 4 True True
   \<and> is_valid_word ''tents'' (set (map py_lower example_letters)) ''n'' 4 False False"
proof -
  define ls where "ls = set (map py_lower example_letters)"
  have r: "4 \<le> int (length ''rental'')" "sublist ''n'' ''rental''" "py_set ''rental'' \<subseteq> ls"
    "\<not> is_likely_plural ''rental''" "\<not> is_obscure_word ''rental''"
    unfolding ls_def by code_simp+
  have t: "4 \<le> int (length ''tents'')" "sublist ''n'' ''tents''" "py_set ''tents'' \<subseteq> ls"
    "is_likely_plural ''tents''"
    unfolding ls_def by code_simp+
  have "is_valid_word ''rental'' ls ''n'' 4 True True"
    using is_valid_word_iff [of "''rental''" ls "''n''" 4 True True] r by blast
  moreover have "\<not> is_valid_word ''tents'' ls ''n'' 4 True True"
    using is_valid_word_iff [of "''tents''" ls "''n''" 4 True True] t by blast
  moreover have "is_valid_word ''tents'' ls ''n'' 4 False False"
    using is_valid_word_iff [of "''tents''" ls "''n''" 4 False False] t by blast
  ultimately show ?thesis unfolding ls_def by blast
qed

text \<open>
  C5, read as the three structural tests alone, fails: with the default filters the
  validator refuses \<open>tents\<close>, which is long enough, contains the center and uses letters
  of the puzzle only.
\<close>

theorem is_valid_word_counterexample:
  "\<not> is_valid_word ''tents'' (set (map py_lower example_letters)) ''n'' 4 True True
   \<and> \<not> int (length ''tents'') < 4
   \<and> sublist ''n'' ''tents''
   \<and> py_set ''tents'' \<subseteq> set (map py_lower example_letters)"
  by code_simp

text \<open>
  C4. A solve fails with the \<open>ValueError\<close> of the configuration check exactly when the
  lower-cased letters are not seven distinct ones or the lower-cased center is not among
  them. The failure is the same whatever the word list, the oracle and the options are
  (also for a word list that cannot be opened), it leaves the cache as it was, and it is
  an error, not a list.
\<close>

theorem solve_configuration_error:
  "((\<exists>e. fst (solve_spellingbee ops zf letters center wordlist cfg cache) = Inl (ValueError e))
      \<longleftrightarrow> card (set (map py_lower letters)) \<noteq> 7
          \<or> py_lower center \<notin> set (map py_lower letters))
   \<and> (card (set (map py_lower letters)) \<noteq> 7
        \<or> py_lower center \<notin> set (map py_lower letters)
      \<longrightarrow> solve_spellingbee ops zf letters center wordlist cfg cache =
            (Inl (ValueError
               (if card (set (map py_lower letters)) \<noteq> 7
                then ExpectedSeven (card (set (map py_lower letters)))
                else CenterNotAmong (py_lower center) (sort (remdups (map py_lower letters))))),
             cache))"
  unfolding solve_unfold by (auto split: option.splits)

theorem solve_configuration_error_witness:
  "card (set (map py_lower short_letters)) \<noteq> 7
   \<and> solve_spellingbee real_ops (Some example_zipf) short_letters ''N'' None
        aggressive_options empty_cache = (Inl (ValueError (ExpectedSeven 6)), empty_cache)
   \<and> py_lower ''X'' \<notin> set (map py_lower example_letters)
   \<and> solve_spellingbee real_ops (Some example_zipf) example_letters ''X'' (Some example_lines)
        aggressive_options empty_cache =
        (Inl (ValueError (CenterNotAmong ''x'' [''a'', ''e'', ''l'', ''n'', ''r'', ''s'', ''t''])),
         empty_cache)"
proof -
  have c: "card (set (map py_lower short_letters)) = 6"
    by code_simp
  have d: "card (set (map py_lower example_letters)) = 7"
    "py_lower ''X'' \<notin> set (map py_lower example_letters)"
    "py_lower ''X'' = ''x''"
    "sort (remdups (map py_lower example_letters)) = [''a'', ''e'', ''l'', ''n'', ''r'', ''s'', ''t'']"
    by code_simp+
  have "solve_spellingbee real_ops (Some example_zipf) short_letters ''N'' None
          aggressive_options empty_cache = (Inl (ValueError (ExpectedSeven 6)), empty_cache)"
    using solve_configuration_error [of real_ops "Some example_zipf" short_letters "''N''" None
        aggressive_options empty_cache, THEN conjunct2] c
    by simp
  moreover have "solve_spellingbee real_ops (Some example_zipf) example_letters ''X''
          (Some example_lines) aggressive_options empty_cache =
        (Inl (ValueError (CenterNotAmong ''x'' [''a'', ''e'', ''l'', ''n'', ''r'', ''s'', ''t''])),
         empty_cache)"
    using solve_configuration_error [of real_ops "Some example_zipf" example_letters "''X''"
        "Some example_lines" aggressive_options empty_cache, THEN conjunct2] d
    by (simp del: set_map)
  ultimately show ?thesis using c d(2) by simp
qed

section \<open>The words of the output\<close>

lemma set_sorted_loop:
  assumes "rs = sort_key k (fst (solve_loop ops zf ls c cfg ws [] cache))"
    and "fst (solve_loop ops zf ls c cfg ws [] cache) =
           [] @ map (result_for ops zf ls cfg) (filter (keeps ops zf ls c cfg) ws)"
  shows "set rs = result_for ops zf ls cfg ` {w \<in> set ws. keeps ops zf ls c cfg w}"
  unfolding assms by auto

lemma solve_Some_active:
  assumes "solve_spellingbee ops zf letters center (Some f) cfg cache = (Inr rs, cache')"
    and "cache_ok ops zf cache"
  shows "set rs = result_for ops zf (set (map py_lower letters)) cfg `
                    {w \<in> set (load_words f).
                       keeps ops zf (set (map py_lower letters)) (py_lower center) cfg w}"
    and "cache_ok ops zf cache'"
proof -
  from solve_Inr[OF assms(1)] have
    rs: "rs = sort_key (\<lambda>r. (- score r, word r))
            (fst (solve_loop ops zf (set (map py_lower letters)) (py_lower center) cfg
               (load_words f) [] cache))"
    and c: "cache' = snd (solve_loop ops zf (set (map py_lower letters)) (py_lower center) cfg
               (load_words f) [] cache)"
    by auto
  note l = solve_loop_active[OF assms(2), of "set (map py_lower letters)" "py_lower center" cfg
      "load_words f" "[]"]
  show "cache_ok ops zf cache'" unfolding c using l by (rule conjunct2)
  show "set rs = result_for ops zf (set (map py_lower letters)) cfg `
                    {w \<in> set (load_words f).
                       keeps ops zf (set (map py_lower letters)) (py_lower center) cfg w}"
    using rs l[THEN conjunct1] by (rule set_sorted_loop)
qed

lemma solve_Some_inactive:
  assumes "solve_spellingbee ops zf letters center (Some f) cfg cache = (Inr rs, cache')"
    and "min_zipf cfg = None \<or> zf = None"
  shows "set rs = result_for ops zf (set (map py_lower letters)) cfg `
                    {w \<in> set (load_words f).
                       keeps ops zf (set (map py_lower letters)) (py_lower center) cfg w}"
    and "cache' = cache"
proof -
  from solve_Inr[OF assms(1)] have
    rs: "rs = sort_key (\<lambda>r. (- score r, word r))
            (fst (solve_loop ops zf (set (map py_lower letters)) (py_lower center) cfg
               (load_words f) [] cache))"
    and c: "cache' = snd (solve_loop ops zf (set (map py_lower letters)) (py_lower center) cfg
               (load_words f) [] cache)"
    by auto
  note l = solve_loop_inactive[OF assms(2), of ops "set (map py_lower letters)" "py_lower center"
      "load_words f" "[]" cache]
  show "cache' = cache" unfolding c l by (rule snd_conv)
  have "fst (solve_loop ops zf (set (map py_lower letters)) (py_lower center) cfg
               (load_words f) [] cache) =
        [] @ map (result_for ops zf (set (map py_lower letters)) cfg)
          (filter (keeps ops zf (set (map py_lower letters)) (py_lower center) cfg) (load_words f))"
    unfolding l by (rule fst_conv)
  with rs show "set rs = result_for ops zf (set (map py_lower letters)) cfg `
                    {w \<in> set (load_words f).
                       keeps ops zf (set (map py_lower letters)) (py_lower center) cfg w}"
    by (rule set_sorted_loop)
qed

lemma word_result_for [simp]: "word (result_for ops zf ls cfg w) = w"
  by (simp add: result_for_def)

lemma zipf_score_result_for_inactive:
  "min_zipf cfg = None \<or> zf = None \<Longrightarrow> zipf_score (result_for ops zf ls cfg w) = f00 ops"
  by (auto simp: result_for_def split: option.splits)

lemma keeps_inactive:
  "min_zipf cfg = None \<or> zf = None \<Longrightarrow>
   keeps ops zf ls c cfg w \<longleftrightarrow>
     is_valid_word w ls c (min_len cfg) (filter_plurals cfg) (filter_obscure cfg)
     \<and> (\<forall>m. max_len cfg = Some m \<longrightarrow> int (length w) \<le> m)"
  by (auto simp: keeps_def frequency_keeps_def within_max_len_def split: option.splits)

lemma keeps_active:
  "min_zipf cfg = Some t \<Longrightarrow>
   keeps ops (Some f) ls c cfg w \<longleftrightarrow>
     is_valid_word w ls c (min_len cfg) (filter_plurals cfg) (filter_obscure cfg)
     \<and> (\<forall>m. max_len cfg = Some m \<longrightarrow> int (length w) \<le> m)
     \<and> \<not> flt ops (f w) t
     \<and> \<not> (use_aggressive_filtering cfg \<and>
           (8 \<le> length w \<and> flt ops (f w) (fadd ops t (f03 ops))
            \<or> 9 \<le> length w \<and> flt ops (f w) (fadd ops t (f05 ops))))"
  by (auto simp: keeps_def frequency_keeps_def within_max_len_def split: option.splits)

lemma words_of_results:
  assumes "set rs = result_for ops zf ls cfg ` {w \<in> set ws. keeps ops zf ls c cfg w}"
  shows "word ` set rs = {w \<in> set ws. keeps ops zf ls c cfg w}"
  unfolding assms by (auto simp: image_image)

text \<open>
  C8. With a threshold configured, the frequency library present and aggressive filtering
  on, no word of at least 8 characters whose score is below the threshold plus 0.3, and
  no word of at least 9 characters whose score is below the threshold plus 0.5, is in the
  output. With aggressive filtering off, or no threshold, or no frequency library, every
  word of the source that passes the validator, the length cap and the plain threshold
  (when that applies) is in the output. The score of a word is the oracle's, which is
  what the cached lookup returns for a cache that only the lookup has written.
\<close>

theorem aggressive_filtering:
  assumes "solve_spellingbee ops zf letters center (Some lines) cfg cache = (Inr rs, cache')"
    and "cache_ok ops zf cache"
  shows "(\<forall>t f w. min_zipf cfg = Some t \<and> zf = Some f \<and> use_aggressive_filtering cfg
            \<and> (8 \<le> length w \<and> flt ops (f w) (fadd ops t (f03 ops))
                \<or> 9 \<le> length w \<and> flt ops (f w) (fadd ops t (f05 ops)))
            \<longrightarrow> w \<notin> word ` set rs)
       \<and> (\<not> use_aggressive_filtering cfg \<or> min_zipf cfg = None \<or> zf = None \<longrightarrow>
            (\<forall>w\<in>set (load_words lines).
               is_valid_word w (set (map py_lower letters)) (py_lower center) (min_len cfg)
                 (filter_plurals cfg) (filter_obscure cfg)
               \<and> (\<forall>m. max_len cfg = Some m \<longrightarrow> int (length w) \<le> m)
               \<and> (\<forall>t f. min_zipf cfg = Some t \<and> zf = Some f \<longrightarrow> \<not> flt ops (f w) t)
               \<longrightarrow> w \<in> word ` set rs))"
proof -
  define ls where "ls = set (map py_lower letters)"
  define c where "c = py_lower center"
  have ws: "word ` set rs = {w \<in> set (load_words lines). keeps ops zf ls c cfg w}"
    unfolding ls_def c_def
    using solve_Some_active(1)[OF assms] by (rule words_of_results)
  have a: "w \<notin> word ` set rs"
    if "min_zipf cfg = Some t" "zf = Some f" "use_aggressive_filtering cfg"
      "8 \<le> length w \<and> flt ops (f w) (fadd ops t (f03 ops))
       \<or> 9 \<le> length w \<and> flt ops (f w) (fadd ops t (f05 ops))" for t f w
    unfolding ws using that by (simp add: keeps_active)
  have b: "w \<in> word ` set rs"
    if "\<not> use_aggressive_filtering cfg \<or> min_zipf cfg = None \<or> zf = None"
      "w \<in> set (load_words lines)"
      "is_valid_word w ls c (min_len cfg) (filter_plurals cfg) (filter_obscure cfg)"
      "\<forall>m. max_len cfg = Some m \<longrightarrow> int (length w) \<le> m"
      "\<forall>t f. min_zipf cfg = Some t \<and> zf = Some f \<longrightarrow> \<not> flt ops (f w) t" for w
  proof (cases "min_zipf cfg = None \<or> zf = None")
    case True
    then show ?thesis unfolding ws using that by (simp add: keeps_inactive)
  next
    case False
    then obtain t f where tf: "min_zipf cfg = Some t" "zf = Some f" by auto
    with that have "\<not> use_aggressive_filtering cfg" "\<not> flt ops (f w) t" by auto
    then show ?thesis unfolding ws tf(2) using that(2,3,4) by (simp add: keeps_active[OF tf(1)])
  qed
  show ?thesis
    using a b unfolding ls_def c_def by blast
qed

theorem aggressive_filtering_witness:
  "solve_spellingbee real_ops (Some example_zipf) example_letters ''N'' (Some frequency_lines)
     aggressive_options empty_cache = (Inr aggressive_results, filled_cache)
   \<and> cache_ok real_ops (Some example_zipf) empty_cache
   \<and> min_zipf aggressive_options = Some 3.6
   \<and> use_aggressive_filtering aggressive_options
   \<and> 8 \<le> length ''alternate''
   \<and> flt real_ops (example_zipf ''alternate'') (fadd real_ops 3.6 (f03 real_ops))
   \<and> ''alternate'' \<notin> word ` set aggressive_results
   \<and> solve_spellingbee real_ops (Some example_zipf) example_letters ''N'' (Some frequency_lines)
        threshold_options empty_cache = (Inr threshold_results, filled_cache)
   \<and> \<not> use_aggressive_filtering threshold_options
   \<and> ''alternate'' \<in> set (load_words frequency_lines)
   \<and> \<not> flt real_ops (example_zipf ''alternate'') 3.6
   \<and> ''alternate'' \<in> word ` set threshold_results"
proof -
  have ok: "cache_ok real_ops (Some example_zipf) empty_cache"
    by (rule empty_cache_ok)
  have on: "min_zipf aggressive_options = Some 3.6" "use_aggressive_filtering aggressive_options"
    by (simp_all add: aggressive_options_def)
  have off: "min_zipf threshold_options = Some 3.6" "\<not> use_aggressive_filtering threshold_options"
    "max_len threshold_options = Some 10"
    by (simp_all add: threshold_options_def default_options_def)
  have low: "8 \<le> length ''alternate''"
    "flt real_ops (example_zipf ''alternate'') (fadd real_ops 3.6 (f03 real_ops))"
    "\<not> flt real_ops (example_zipf ''alternate'') 3.6"
    by (simp_all add: real_ops_def example_zipf_def)
  have mem: "''alternate'' \<in> set (load_words frequency_lines)"
    by code_simp
  have valid: "is_valid_word ''alternate'' (set (map py_lower example_letters)) (py_lower ''N'')
      (min_len threshold_options) (filter_plurals threshold_options)
      (filter_obscure threshold_options)"
    by code_simp
  have a: "''alternate'' \<notin> word ` set aggressive_results"
    using aggressive_filtering [OF example_run_aggressive ok, THEN conjunct1] on low(1,2)
    by blast
  have b: "''alternate'' \<in> word ` set threshold_results"
  proof -
    from aggressive_filtering [OF example_run_threshold ok, THEN conjunct2] off(2)
    have "\<forall>w\<in>set (load_words frequency_lines).
            is_valid_word w (set (map py_lower example_letters)) (py_lower ''N'')
              (min_len threshold_options) (filter_plurals threshold_options)
              (filter_obscure threshold_options)
            \<and> (\<forall>m. max_len threshold_options = Some m \<longrightarrow> int (length w) \<le> m)
            \<and> (\<forall>t f. min_zipf threshold_options = Some t \<and> Some example_zipf = Some f
                  \<longrightarrow> \<not> flt real_ops (f w) t)
            \<longrightarrow> w \<in> word ` set threshold_results"
      by blast
    moreover have "\<forall>m. max_len threshold_options = Some m \<longrightarrow> int (length ''alternate'') \<le> m"
      using off(3) by simp
    moreover have "\<forall>t f. min_zipf threshold_options = Some t \<and> Some example_zipf = Some f
                  \<longrightarrow> \<not> flt real_ops (f ''alternate'') t"
      using low(3) by (simp only: off(1) option.inject) blast
    ultimately show ?thesis using mem valid by blast
  qed
  show ?thesis
    using example_run_aggressive example_run_threshold ok on off(2) low mem a b by blast
qed

text \<open>
  C9. Without the frequency library the oracle answers \<open>0.0\<close> for every word, and a solve
  keeps every word of the source that passes the validator and the length cap, whatever
  threshold is configured, gives every result the frequency score \<open>0.0\<close> and leaves the
  cache untouched.
\<close>

theorem degraded_mode:
  "(cache_ok ops None cache \<longrightarrow> fst (get_zipf ops None w cache) = f00 ops)
   \<and> (solve_spellingbee ops None letters center (Some lines) cfg cache = (Inr rs, cache') \<longrightarrow>
        (\<forall>r\<in>set rs. zipf_score r = f00 ops)
        \<and> cache' = cache
        \<and> word ` set rs =
            {w \<in> set (load_words lines).
               is_valid_word w (set (map py_lower letters)) (py_lower center) (min_len cfg)
                 (filter_plurals cfg) (filter_obscure cfg)
               \<and> (\<forall>m. max_len cfg = Some m \<longrightarrow> int (length w) \<le> m)})"
proof (intro conjI impI)
  assume "cache_ok ops None cache"
  then show "fst (get_zipf ops None w cache) = f00 ops"
    by (simp add: get_zipf_value oracle_value_def)
next
  assume s: "solve_spellingbee ops None letters center (Some lines) cfg cache = (Inr rs, cache')"
  have n: "min_zipf cfg = None \<or> (None :: (string \<Rightarrow> 'a) option) = None" by simp
  note r = solve_Some_inactive[OF s n]
  show "cache' = cache" by (rule r(2))
  show "\<forall>r\<in>set rs. zipf_score r = f00 ops"
    unfolding r(1) by (auto simp: zipf_score_result_for_inactive)
  show "word ` set rs =
            {w \<in> set (load_words lines).
               is_valid_word w (set (map py_lower letters)) (py_lower center) (min_len cfg)
                 (filter_plurals cfg) (filter_obscure cfg)
               \<and> (\<forall>m. max_len cfg = Some m \<longrightarrow> int (length w) \<le> m)}"
    unfolding words_of_results[OF r(1)] by (simp add: keeps_inactive)
qed

theorem degraded_mode_witness:
  "cache_ok real_ops None (empty_cache :: real lru_cache)
   \<and> fst (get_zipf real_ops None ''earn'' empty_cache) = f00 real_ops
   \<and> solve_spellingbee real_ops None example_letters ''N'' (Some frequency_lines)
        aggressive_options empty_cache = (Inr unfiltered_results, empty_cache)
   \<and> unfiltered_results ! 3 \<in> set unfiltered_results
   \<and> zipf_score (unfiltered_results ! 3) = f00 real_ops
   \<and> min_zipf aggressive_options = Some 3.6"
proof -
  have ok: "cache_ok real_ops None (empty_cache :: real lru_cache)"
    by (rule empty_cache_ok)
  have mem: "unfiltered_results ! 3 \<in> set unfiltered_results"
    by (simp add: unfiltered_results_def)
  have t: "min_zipf aggressive_options = Some 3.6"
    by (simp add: aggressive_options_def)
  note d = degraded_mode [of real_ops empty_cache "''earn''" example_letters "''N''"
      frequency_lines aggressive_options unfiltered_results empty_cache]
  from d ok have "fst (get_zipf real_ops None ''earn'' empty_cache) = f00 real_ops"
    by blast
  moreover from d example_run_degraded mem
  have "zipf_score (unfiltered_results ! 3) = f00 real_ops"
    by blast
  ultimately show ?thesis using ok example_run_degraded mem t by blast
qed

lemma keeps_no_threshold:
  "min_zipf cfg = None \<Longrightarrow>
   keeps ops zf ls c cfg = keeps ops None ls c (cfg\<lparr>use_aggressive_filtering := False\<rparr>)"
  by (rule ext) (simp add: keeps_def frequency_keeps_def within_max_len_def)

lemma result_for_no_threshold:
  "min_zipf cfg = None \<Longrightarrow>
   result_for ops zf ls cfg = result_for ops None ls (cfg\<lparr>use_aggressive_filtering := False\<rparr>)"
  by (rule ext) (simp add: result_for_def)

text \<open>
  C10. With no threshold configured a solve leaves the cache and its counters of hits and
  misses as they were (the oracle is not called: by \<open>get_zipf_counts\<close> every call counts
  as a hit or as a miss), returns what it returns without the
  frequency library and with aggressive filtering off, keeps every word of the source
  that passes the validator and the length cap, and gives every result the frequency
  score \<open>0.0\<close>.
\<close>

theorem no_threshold:
  assumes "min_zipf cfg = None"
  shows "snd (solve_spellingbee ops zf letters center wordlist cfg cache) = cache
       \<and> fst (solve_spellingbee ops zf letters center wordlist cfg cache) =
           fst (solve_spellingbee ops None letters center wordlist
                  (cfg\<lparr>use_aggressive_filtering := False\<rparr>) cache)
       \<and> (\<forall>rs. fst (solve_spellingbee ops zf letters center wordlist cfg cache) = Inr rs \<longrightarrow>
            (\<forall>r\<in>set rs. zipf_score r = f00 ops)
            \<and> (\<forall>lines. wordlist = Some lines \<longrightarrow>
                 word ` set rs =
                   {w \<in> set (load_words lines).
                      is_valid_word w (set (map py_lower letters)) (py_lower center) (min_len cfg)
                        (filter_plurals cfg) (filter_obscure cfg)
                      \<and> (\<forall>m. max_len cfg = Some m \<longrightarrow> int (length w) \<le> m)}))"
proof (intro conjI allI impI)
  have n: "min_zipf cfg = None \<or> zf = None" using assms by simp
  have n': "min_zipf (cfg\<lparr>use_aggressive_filtering := False\<rparr>) = None
            \<or> (None :: (string \<Rightarrow> 'a) option) = None" by simp
  show "snd (solve_spellingbee ops zf letters center wordlist cfg cache) = cache"
    unfolding solve_unfold solve_loop_inactive[OF n] by (simp split: option.splits)
  show "fst (solve_spellingbee ops zf letters center wordlist cfg cache) =
           fst (solve_spellingbee ops None letters center wordlist
                  (cfg\<lparr>use_aggressive_filtering := False\<rparr>) cache)"
    unfolding solve_unfold solve_loop_inactive[OF n] solve_loop_inactive[OF n']
      keeps_no_threshold[OF assms] result_for_no_threshold[OF assms]
    by (simp split: option.splits)
  fix rs
  assume "fst (solve_spellingbee ops zf letters center wordlist cfg cache) = Inr rs"
  then obtain cache' where
    s: "solve_spellingbee ops zf letters center wordlist cfg cache = (Inr rs, cache')"
    by (cases "solve_spellingbee ops zf letters center wordlist cfg cache") simp
  from solve_Inr[OF s] obtain f where f: "wordlist = Some f" by blast
  note r = solve_Some_inactive[OF s[unfolded f] n]
  show "\<forall>r\<in>set rs. zipf_score r = f00 ops"
    unfolding r(1) using n by (auto simp: zipf_score_result_for_inactive)
  fix lines
  assume "wordlist = Some lines"
  with f have "f = lines" by simp
  then show "word ` set rs =
                   {w \<in> set (load_words lines).
                      is_valid_word w (set (map py_lower letters)) (py_lower center) (min_len cfg)
                        (filter_plurals cfg) (filter_obscure cfg)
                      \<and> (\<forall>m. max_len cfg = Some m \<longrightarrow> int (length w) \<le> m)}"
    unfolding words_of_results[OF r(1)] using n by (simp add: keeps_inactive)
qed

theorem no_threshold_witness:
  "min_zipf no_threshold_options = None
   \<and> use_aggressive_filtering no_threshold_options
   \<and> solve_spellingbee real_ops (Some example_zipf) example_letters ''N'' (Some frequency_lines)
        no_threshold_options empty_cache = (Inr unfiltered_results, empty_cache)
   \<and> unfiltered_results ! 1 \<in> set unfiltered_results
   \<and> word (unfiltered_results ! 1) = ''alternate''
   \<and> zipf_score (unfiltered_results ! 1) = f00 real_ops"
proof -
  have n: "min_zipf no_threshold_options = None" "use_aggressive_filtering no_threshold_options"
    by (simp_all add: no_threshold_options_def default_options_def)
  have mem: "unfiltered_results ! 1 \<in> set unfiltered_results"
    "word (unfiltered_results ! 1) = ''alternate''"
    by (simp_all add: unfiltered_results_def)
  have f: "fst (solve_spellingbee real_ops (Some example_zipf) example_letters ''N''
              (Some frequency_lines) no_threshold_options empty_cache) = Inr unfiltered_results"
    by (simp add: example_run_no_threshold)
  from no_threshold [OF n(1), of real_ops "Some example_zipf" example_letters "''N''"
      "Some frequency_lines" empty_cache] f mem(1)
  have "zipf_score (unfiltered_results ! 1) = f00 real_ops"
    by blast
  with n mem example_run_no_threshold show ?thesis by blast
qed

end
